theory Spec2Isabelle
  imports Complex_Main "HOL-Library.Multiset" "HOL-Library.Log_Nat"
begin

section \<open>apiscout: the ApiQR renderer (ApiQR.py)\<close>

text \<open>
  The class \<open>ApiQR\<close> renders a vector of API weights as a square picture whose cells are
  ordered along a Hilbert curve. The theory embeds the methods of \<open>ApiQR.py\<close> as HOL
  functions and proves properties of them. The file is Python 2 code (\<open>__div__\<close>,
  implicit relative imports, \<open>np.vstack(map(...))\<close> on a list), and it is read with the
  semantics of Python 2 and the numpy of its time.
\<close>

subsection \<open>Exceptions\<close>

text \<open>
  \<open>RuntimeError\<close> is what Python 2 raises when the recursion depth is exceeded.
\<close>

datatype error =
  ValueError | TypeError | IndexError | ZeroDivisionError | OverflowError | RuntimeError

subsection \<open>The numpy operations used by the curve generator\<close>

text \<open>
  A two-dimensional numpy array is a list of rows. The arrays of \<open>__hilbertCurve\<close> hold
  integers; they start as \<open>int32\<close>, and numpy's value-based promotion of that time widens
  the array to \<open>int64\<close> as soon as an added offset does not fit (an offset \<open>t.size * 3\<close>
  leaves \<open>int64\<close> only for grids beyond \<open>2^62\<close> cells, which no address space holds), so
  the entries are modelled as unbounded integers.
\<close>

type_synonym 'a array2 = "'a list list"

definition np_zeros_1_1 :: "int array2" where
  "np_zeros_1_1 = [[0]]"

text \<open>\<open>a.size\<close>: the number of elements.\<close>

definition np_size :: "'a array2 \<Rightarrow> int" where
  "np_size t = int (length (concat t))"

text \<open>\<open>np.fliplr\<close> and \<open>np.flipud\<close> reverse each row, respectively the order of the rows.\<close>

definition np_fliplr :: "'a array2 \<Rightarrow> 'a array2" where
  "np_fliplr t = map rev t"

definition np_flipud :: "'a array2 \<Rightarrow> 'a array2" where
  "np_flipud t = rev t"

text \<open>
  \<open>np.rot90(m, k)\<close> for two-dimensional \<open>m\<close>: numpy computes \<open>k = 1\<close> as
  \<open>transpose(fliplr(m))\<close> and \<open>k = -1\<close> (that is \<open>k = 3\<close>) as \<open>fliplr(transpose(m))\<close>.
\<close>

definition np_rot90 :: "'a array2 \<Rightarrow> 'a array2" where
  "np_rot90 t = transpose (np_fliplr t)"

definition np_rot90_neg :: "'a array2 \<Rightarrow> 'a array2" where
  "np_rot90_neg t = np_fliplr (transpose t)"

text \<open>\<open>t + k\<close> for an array and a scalar adds \<open>k\<close> to every element.\<close>

definition np_add_scalar :: "int array2 \<Rightarrow> int \<Rightarrow> int array2" where
  "np_add_scalar t k = map (map (\<lambda>v. v + k)) t"

text \<open>
  \<open>np.hstack\<close> joins arrays row by row, \<open>np.vstack\<close> puts them one under the other. The
  source stacks pairs of blocks that all have the shape of \<open>t\<close>.
\<close>

fun np_hstack :: "'a array2 list \<Rightarrow> 'a array2" where
  "np_hstack [] = []"
| "np_hstack [a] = a"
| "np_hstack (a # bs) = map2 (@) a (np_hstack bs)"

definition np_vstack :: "'a array2 list \<Rightarrow> 'a array2" where
  "np_vstack bs = concat bs"

text \<open>
  \<open>np.digitize(x, bins, right=True)\<close> for increasing \<open>bins\<close> is the index \<open>i\<close> with
  \<open>bins[i-1] < x <= bins[i]\<close>: the number of bins below \<open>x\<close>.
\<close>

definition np_digitize_right :: "int \<Rightarrow> int list \<Rightarrow> nat" where
  "np_digitize_right x bins = length (filter (\<lambda>b. b < x) bins)"

text \<open>
  \<open>a.reshape(r, c, e)\<close> of an array with \<open>r * c * e\<close> scalars, given as the flat list of
  the scalars: cell \<open>(i, j)\<close> holds the \<open>e\<close> scalars from position \<open>(i * c + j) * e\<close> on.
  Any other number of scalars is a ValueError.
\<close>

definition np_reshape3 :: "nat \<Rightarrow> nat \<Rightarrow> nat \<Rightarrow> 'a list \<Rightarrow> error + 'a list array2" where
  "np_reshape3 r c e flat =
     (if length flat = r * c * e
      then Inr (map (\<lambda>i. map (\<lambda>j. take e (drop ((i * c + j) * e) flat)) [0..<c]) [0..<r])
      else Inl ValueError)"

text \<open>\<open>np.int8(a)\<close> converts every element to a signed byte, wrapping around.\<close>

definition np_int8 :: "int \<Rightarrow> int" where
  "np_int8 v = (v + 128) mod 256 - 128"

subsection \<open>The curve generator\<close>

text \<open>
  The body of \<open>__hilbertCurve\<close> after the recursive call: the four blocks and their
  assembly.
\<close>

definition hilbert_step :: "int array2 \<Rightarrow> int array2" where
  "hilbert_step t =
     (let a = np_flipud (np_rot90 t);
          b = np_add_scalar t (np_size t);
          c = np_add_scalar t (np_size t * 2);
          d = np_add_scalar (np_flipud (np_rot90_neg t)) (np_size t * 3)
      in np_vstack (map np_hstack [[a, b], [d, c]]))"

text \<open>
  \<open>__hilbertCurve(n)\<close> recurses on \<open>n // 2\<close> until \<open>n == 1\<close>. For \<open>n < 1\<close> the recursion
  never reaches its base case, so the function is partial: \<open>None\<close> is "does not return"
  (Python ends the runaway recursion with a RuntimeError for the recursion depth).
  Python's \<open>//\<close> and HOL's \<open>div\<close> on \<open>int\<close> both round towards minus infinity.
\<close>

partial_function (option) hilbertCurve :: "int \<Rightarrow> int array2 option" where
  "hilbertCurve n =
     (if n = 1 then Some np_zeros_1_1
      else Option.bind (hilbertCurve (n div 2)) (\<lambda>t. Some (hilbert_step t)))"

subsection \<open>Python numbers\<close>

text \<open>
  The components of a vector are Python numbers: booleans, integers of any size, and
  floats. A float is an IEEE 754 binary64 number; a finite one is modelled by the
  rational number it denotes, and every float operation rounds its exact result to the
  nearest binary64 number, ties to even. Infinities and NaN are not modelled: the
  statements below are about finite floats.

  \<open>ilog2 x\<close> is the binary exponent \<open>\<lfloor>log\<^sub>2 x\<rfloor>\<close> of a positive rational;
  \<open>float_round\<close> rounds to 53 significant bits, or to the multiples of \<open>2 powi (- 1074)\<close> in
  the subnormal range.
\<close>

datatype pyval = PyBool bool | PyInt int | PyFloat rat

definition ilog2 :: "rat \<Rightarrow> int" where
  "ilog2 x = (if 1 \<le> x then int (floorlog 2 (nat \<lfloor>x\<rfloor>)) - 1
              else - int (floorlog 2 (nat (\<lceil>1 / x\<rceil> - 1))))"

definition round_half_even :: "rat \<Rightarrow> int" where
  "round_half_even y =
     (let f = \<lfloor>y\<rfloor>; r = y - of_int f
      in if r < 1 / 2 then f else if 1 / 2 < r then f + 1 else if even f then f else f + 1)"

definition float_round :: "rat \<Rightarrow> rat" where
  "float_round x =
     (if x = 0 then 0
      else let q = 2 powi (max (ilog2 \<bar>x\<bar>) (- 1022) - 52)
           in of_int (round_half_even (x / q)) * q)"

definition is_double :: "rat \<Rightarrow> bool" where
  "is_double x \<longleftrightarrow> float_round x = x \<and> \<bar>x\<bar> < 2 ^ 1024"

text \<open>
  The number a value stands for; \<open>True\<close> and \<open>False\<close> are the integers 1 and 0
  (\<open>py_index\<close> is only applied to booleans and integers).
\<close>

definition py_index :: "pyval \<Rightarrow> int" where
  "py_index v = (case v of PyBool b \<Rightarrow> (if b then 1 else 0) | PyInt i \<Rightarrow> i | PyFloat r \<Rightarrow> \<lfloor>r\<rfloor>)"

definition py_num :: "pyval \<Rightarrow> rat" where
  "py_num v = (case v of PyFloat r \<Rightarrow> r | _ \<Rightarrow> of_int (py_index v))"

definition py_is_float :: "pyval \<Rightarrow> bool" where
  "py_is_float v = (case v of PyFloat r \<Rightarrow> True | _ \<Rightarrow> False)"

text \<open>
  \<open>==\<close> and \<open><\<close> between numbers of any two of the three types compare the exact values.
  \<open>min(a, b)\<close> is \<open>b\<close> only if \<open>b < a\<close>, and \<open>max(a, b)\<close> is \<open>b\<close> only if \<open>b > a\<close>;
  otherwise both return their first argument.
\<close>

definition py_eq :: "pyval \<Rightarrow> pyval \<Rightarrow> bool" where
  "py_eq a b \<longleftrightarrow> py_num a = py_num b"

definition py_lt :: "pyval \<Rightarrow> pyval \<Rightarrow> bool" where
  "py_lt a b \<longleftrightarrow> py_num a < py_num b"

definition py_min :: "pyval \<Rightarrow> pyval \<Rightarrow> pyval" where
  "py_min a b = (if py_lt b a then b else a)"

definition py_max :: "pyval \<Rightarrow> pyval \<Rightarrow> pyval" where
  "py_max a b = (if py_lt a b then b else a)"

text \<open>
  Arithmetic between integers (and booleans) is exact. As soon as one operand is a
  float, the other one is converted to a float, which raises OverflowError for an
  integer beyond the range of binary64, and the exact result is rounded. A float
  result beyond the largest binary64 number would be an infinity in Python; the model
  has no infinities and ends with OverflowError there, which is the exception that
  \<open>int()\<close> raises on an infinity. With finite operands the methods below never get there.
\<close>

definition float_result :: "rat \<Rightarrow> error + rat" where
  "float_result r = (if 2 ^ 1024 \<le> \<bar>r\<bar> then Inl OverflowError else Inr r)"

definition to_float :: "pyval \<Rightarrow> error + rat" where
  "to_float v = (case v of PyFloat r \<Rightarrow> Inr r | _ \<Rightarrow> float_result (float_round (py_num v)))"

definition float_op :: "(rat \<Rightarrow> rat \<Rightarrow> rat) \<Rightarrow> pyval \<Rightarrow> pyval \<Rightarrow> error + pyval" where
  "float_op f a b =
     (case to_float a of Inl e \<Rightarrow> Inl e | Inr x \<Rightarrow>
      case to_float b of Inl e \<Rightarrow> Inl e | Inr y \<Rightarrow>
      case float_result (float_round (f x y)) of Inl e \<Rightarrow> Inl e | Inr r \<Rightarrow> Inr (PyFloat r))"

definition py_add :: "pyval \<Rightarrow> pyval \<Rightarrow> error + pyval" where
  "py_add a b = (if py_is_float a \<or> py_is_float b then float_op (+) a b
                 else Inr (PyInt (py_index a + py_index b)))"

definition py_sub :: "pyval \<Rightarrow> pyval \<Rightarrow> error + pyval" where
  "py_sub a b = (if py_is_float a \<or> py_is_float b then float_op (-) a b
                 else Inr (PyInt (py_index a - py_index b)))"

definition py_mul :: "pyval \<Rightarrow> pyval \<Rightarrow> error + pyval" where
  "py_mul a b = (if py_is_float a \<or> py_is_float b then float_op (*) a b
                 else Inr (PyInt (py_index a * py_index b)))"

text \<open>\<open>int(x)\<close> truncates a float towards zero.\<close>

definition py_int :: "pyval \<Rightarrow> int" where
  "py_int v = (case v of PyFloat r \<Rightarrow> (if 0 \<le> r then \<lfloor>r\<rfloor> else \<lceil>r\<rceil>) | _ \<Rightarrow> py_index v)"

text \<open>The float literals \<open>0.2\<close> and \<open>0.4\<close> of the source are the nearest binary64 numbers.\<close>

definition float_0_2 :: rat where
  "float_0_2 = float_round (1 / 5)"

definition float_0_4 :: rat where
  "float_0_4 = float_round (2 / 5)"

text \<open>
  \<open>int(len(vector) ** 0.5)\<close>: the float square root of the length, truncated. For the
  lengths of lists (far below \<open>2^52\<close>) the rounded root of a perfect square is exact and
  the rounded root of any other number stays strictly between its two neighbouring
  integers, so the result is the integer square root \<open>\<lfloor>\<surd>len\<rfloor>\<close>, computed here
  by counting up.
\<close>

fun int_sqrt :: "nat \<Rightarrow> nat" where
  "int_sqrt 0 = 0"
| "int_sqrt (Suc n) = (let r = int_sqrt n in if (r + 1) * (r + 1) \<le> Suc n then r + 1 else r)"

text \<open>
  \<open>xs[i]\<close> on a list: a negative index counts from the end, an index out of range raises
  IndexError.
\<close>

definition py_getitem :: "'a list \<Rightarrow> int \<Rightarrow> error + 'a" where
  "py_getitem xs i =
     (let n = int (length xs); j = (if i < 0 then n + i else i)
      in if 0 \<le> j \<and> j < n then Inr (xs ! nat j) else Inl IndexError)"

text \<open>A list built by a loop or by \<open>map\<close> whose body may raise: the first exception ends it.\<close>

fun sequence_err :: "(error + 'a) list \<Rightarrow> error + 'a list" where
  "sequence_err [] = Inr []"
| "sequence_err (x # xs) =
     (case x of Inl e \<Rightarrow> Inl e
      | Inr v \<Rightarrow> (case sequence_err xs of Inl e \<Rightarrow> Inl e | Inr vs \<Rightarrow> Inr (v # vs)))"

subsection \<open>The context and the colour mapper\<close>

text \<open>
  Modelled from the spec: the class \<open>ApiQRContext\<close> is not among the sources. The
  specification (section 6) lists what the context supplies for a vocabulary of \<open>L\<close>
  entries: \<open>L\<close> base colours (three integer channels each), \<open>L\<close> labels (each a list of
  sub-labels that are joined with colons), the colour of an absent weight
  (conventionally white, \<open>(255, 255, 255)\<close>), and an empty vector; \<open>colors_format\<close> is
  the image mode handed to PIL. The fields have the names the source reads.
\<close>

type_synonym color = "int \<times> int \<times> int"

record ApiQRContext =
  colors :: "color list"
  colors_white :: color
  colors_format :: string
  apis :: "string list list"
  empty_vector :: "pyval list"

text \<open>One channel of \<open>__mapColor\<close>: \<open>int((1 - alpha) * 255 + alpha * color[k])\<close>.\<close>

definition interpolate :: "pyval \<Rightarrow> int \<Rightarrow> error + int" where
  "interpolate alpha c =
     (case py_sub (PyInt 1) alpha of Inl e \<Rightarrow> Inl e | Inr a \<Rightarrow>
      case py_mul a (PyInt 255) of Inl e \<Rightarrow> Inl e | Inr b \<Rightarrow>
      case py_mul alpha (PyInt c) of Inl e \<Rightarrow> Inl e | Inr d \<Rightarrow>
      case py_add b d of Inl e \<Rightarrow> Inl e | Inr s \<Rightarrow> Inr (py_int s))"

text \<open>
  \<open>__mapColor(value, color)\<close>; the first argument of the model is
  \<open>self.context.colors_white\<close>.
\<close>

definition mapColor :: "color \<Rightarrow> pyval \<Rightarrow> color \<Rightarrow> error + color" where
  "mapColor white value color =
     (if value = PyBool True \<or> py_eq value (PyInt 1) \<or> py_eq value (PyFloat 1) then Inr color
      else if value = PyBool False \<or> py_eq value (PyInt 0) \<or> py_eq value (PyFloat 0)
      then Inr white
      else let alpha = py_max (py_min value (PyInt 1)) (PyInt 0) in
        case interpolate alpha (fst color) of Inl e \<Rightarrow> Inl e | Inr r \<Rightarrow>
        case interpolate alpha (fst (snd color)) of Inl e \<Rightarrow> Inl e | Inr g \<Rightarrow>
        case interpolate alpha (snd (snd color)) of Inl e \<Rightarrow> Inl e | Inr b \<Rightarrow>
        Inr (r, g, b))"

subsection \<open>Reordering a vector along the curve\<close>

text \<open>
  \<open>__vectorToHilbert(vector)\<close>. The components of the vector are given as the lists of
  their scalars: a weight \<open>w\<close> is \<open>[w]\<close> (numpy shape \<open>()\<close>, for which the source takes
  \<open>element_size = 1\<close>), a colour \<open>(r, g, b)\<close> is \<open>[r, g, b]\<close> (shape \<open>(3,)\<close>). The source
  reads \<open>np.array(vector)[0]\<close> first, which raises IndexError on an empty vector; it
  calls the curve generator with \<open>int(len(vector) ** 0.5)\<close>, turns the curve values into
  positions with \<open>np.digitize\<close>, picks the components at these positions (IndexError for
  a position outside the vector) and reshapes the picked scalars to the shape of the
  curve with a last axis of \<open>element_size\<close>.
\<close>

definition vectorToHilbert :: "'a list list \<Rightarrow> error + 'a list array2" where
  "vectorToHilbert vector =
     (case vector of
        [] \<Rightarrow> Inl IndexError
      | first # _ \<Rightarrow>
          let element_size = length first in
          (case hilbertCurve (int (int_sqrt (length vector))) of
             None \<Rightarrow> Inl RuntimeError
           | Some hilbert_indices \<Rightarrow>
               let positions = map (\<lambda>x. np_digitize_right x (map int [0..<length vector]))
                                   (concat hilbert_indices)
               in if \<exists>p \<in> set positions. length vector \<le> p then Inl IndexError
                  else np_reshape3 (length hilbert_indices)
                         (case hilbert_indices of [] \<Rightarrow> 0 | row # _ \<Rightarrow> length row)
                         element_size
                         (concat (map (\<lambda>p. vector ! p) positions))))"

text \<open>The property \<open>vector_hilbert\<close>, on a vector of weights.\<close>

definition vector_hilbert :: "pyval list \<Rightarrow> error + pyval list array2" where
  "vector_hilbert vector = vectorToHilbert (map (\<lambda>w. [w]) vector)"

subsection \<open>exportPng\<close>

text \<open>
  \<open>exportPng\<close> maps every weight to its colour, repeats every colour \<open>4 ** scale_factor\<close>
  times, reorders the repeated colours along the curve and converts the result to
  \<open>int8\<close>; that array is handed to PIL. (\<open>map\<close> over two lists of different lengths pads
  the shorter one with \<open>None\<close> in Python 2; the model pairs the lists as far as both go,
  and the theorems are about a colour table with one colour per weight.)
\<close>

definition colored_vector :: "ApiQRContext \<Rightarrow> pyval list \<Rightarrow> error + color list" where
  "colored_vector ctx vector =
     sequence_err (map2 (mapColor (colors_white ctx)) vector (colors ctx))"

definition scaled_vector :: "nat \<Rightarrow> 'a list \<Rightarrow> 'a list" where
  "scaled_vector scale_factor cv = concat (map (replicate (4 ^ scale_factor)) cv)"

definition color_scalars :: "color \<Rightarrow> int list" where
  "color_scalars c = [fst c, fst (snd c), snd (snd c)]"

definition exportPng_transformed :: "ApiQRContext \<Rightarrow> pyval list \<Rightarrow> nat \<Rightarrow> error + int list array2" where
  "exportPng_transformed ctx vector scale_factor =
     (case colored_vector ctx vector of
        Inl e \<Rightarrow> Inl e
      | Inr cv \<Rightarrow> vectorToHilbert (map color_scalars (scaled_vector scale_factor cv)))"

definition exportPng_image :: "ApiQRContext \<Rightarrow> pyval list \<Rightarrow> nat \<Rightarrow> error + int list array2" where
  "exportPng_image ctx vector scale_factor =
     (case exportPng_transformed ctx vector scale_factor of
        Inl e \<Rightarrow> Inl e
      | Inr a \<Rightarrow> Inr (map (map (map np_int8)) a))"

subsection \<open>exportHtml\<close>

text \<open>
  \<open>exportHtml\<close> writes one table cell per curve position. The model returns what the
  text of a cell is made of: whether the cell went through the branch for the colour
  of an absent weight (that branch alone writes \<open>data-delay\<close>), the colour and the
  popover text. \<open>1.0 / hilbert_size\<close> raises ZeroDivisionError for an empty vector.
\<close>

record html_cell =
  cell_absent :: bool
  cell_color :: color
  cell_popover :: string

fun join_colon :: "string list \<Rightarrow> string" where
  "join_colon [] = []"
| "join_colon [x] = x"
| "join_colon (x # xs) = x @ '':'' @ join_colon xs"

definition exportHtml_cell :: "ApiQRContext \<Rightarrow> pyval list \<Rightarrow> int \<Rightarrow> error + html_cell" where
  "exportHtml_cell ctx vector index =
     (case py_getitem vector index of Inl e \<Rightarrow> Inl e | Inr value \<Rightarrow>
      case py_getitem (colors ctx) index of Inl e \<Rightarrow> Inl e | Inr raw_color \<Rightarrow>
      case mapColor (colors_white ctx) value raw_color of Inl e \<Rightarrow> Inl e | Inr color \<Rightarrow>
      if color = colors_white ctx then
        (case mapColor (colors_white ctx) (PyFloat float_0_2) raw_color of Inl e \<Rightarrow> Inl e
         | Inr color' \<Rightarrow>
        case py_getitem (apis ctx) index of Inl e \<Rightarrow> Inl e | Inr names \<Rightarrow>
        Inr \<lparr>cell_absent = True, cell_color = color', cell_popover = join_colon names\<rparr>)
      else
        (case py_getitem (apis ctx) index of Inl e \<Rightarrow> Inl e | Inr names \<Rightarrow>
        case py_sub (PyInt 1) (PyFloat float_0_4) of Inl e \<Rightarrow> Inl e | Inr k \<Rightarrow>
        case py_mul value k of Inl e \<Rightarrow> Inl e | Inr p \<Rightarrow>
        case py_add (PyFloat float_0_4) p of Inl e \<Rightarrow> Inl e | Inr value' \<Rightarrow>
        case mapColor (colors_white ctx) value' raw_color of Inl e \<Rightarrow> Inl e | Inr color' \<Rightarrow>
        Inr \<lparr>cell_absent = False, cell_color = color', cell_popover = join_colon names\<rparr>))"

definition exportHtml_cells :: "ApiQRContext \<Rightarrow> pyval list \<Rightarrow> error + html_cell array2" where
  "exportHtml_cells ctx vector =
     (let hilbert_size = int_sqrt (length vector) in
      if hilbert_size = 0 then Inl ZeroDivisionError
      else case hilbertCurve (int hilbert_size) of
             None \<Rightarrow> Inl RuntimeError
           | Some rows \<Rightarrow>
               sequence_err (map (\<lambda>hilbert_row.
                 sequence_err (map (exportHtml_cell ctx vector) hilbert_row)) rows))"

subsection \<open>Addition of two ApiQR objects\<close>

text \<open>
  An \<open>ApiQR\<close> object holds its vector and its context (the fields \<open>vector\<close> and
  \<open>context\<close> of the source; \<open>context\<close> is a reserved word here). \<open>__init__\<close> has the parameters
  \<open>winapi1024_filepath\<close> (required) and \<open>vector\<close> (optional), after \<open>self\<close>. A call that
  passes a keyword which is not a parameter, or that leaves a required parameter
  without a value, raises TypeError before the body of \<open>__init__\<close> runs. The body
  builds an \<open>ApiVector\<close> and an \<open>ApiQRContext\<close>, classes that are not among the sources:
  it is a parameter of the model, and so is the comparison \<open>!=\<close> of two contexts.
\<close>

record ApiQR =
  qr_vector :: "pyval list"
  qr_context :: ApiQRContext

datatype pyobject = ApiQR_instance ApiQR | Other_object

datatype argument = Path_arg string | Vector_arg "pyval list" | Context_arg ApiQRContext

definition bind_keywords :: "string list \<Rightarrow> string list \<Rightarrow> (string \<times> 'a) list \<Rightarrow> error + unit" where
  "bind_keywords parameters required keywords =
     (if \<exists>k \<in> set (map fst keywords). k \<notin> set parameters then Inl TypeError
      else if \<exists>p \<in> set required. p \<notin> set (map fst keywords) then Inl TypeError
      else Inr ())"

definition ApiQR_new ::
  "((string \<times> argument) list \<Rightarrow> error + ApiQR) \<Rightarrow> (string \<times> argument) list \<Rightarrow> error + ApiQR" where
  "ApiQR_new init_body keywords =
     (case bind_keywords [''winapi1024_filepath'', ''vector''] [''winapi1024_filepath''] keywords of
        Inl e \<Rightarrow> Inl e
      | Inr _ \<Rightarrow> init_body keywords)"

text \<open>
  \<open>list(map(operator.add, self.vector, other.vector))\<close>: Python 2 pads the shorter vector
  with \<open>None\<close>, and a number plus \<open>None\<close> is a TypeError.
\<close>

definition add_vectors :: "pyval list \<Rightarrow> pyval list \<Rightarrow> error + pyval list" where
  "add_vectors xs ys =
     (if length xs = length ys then sequence_err (map2 py_add xs ys) else Inl TypeError)"

definition ApiQR_add ::
  "(ApiQRContext \<Rightarrow> ApiQRContext \<Rightarrow> bool) \<Rightarrow> ((string \<times> argument) list \<Rightarrow> error + ApiQR) \<Rightarrow>
     ApiQR \<Rightarrow> pyobject \<Rightarrow> error + ApiQR" where
  "ApiQR_add context_ne init_body self other =
     (case other of
        Other_object \<Rightarrow> Inl ValueError
      | ApiQR_instance other_qr \<Rightarrow>
          if context_ne (qr_context self) (qr_context other_qr) then Inl ValueError
          else case add_vectors (qr_vector self) (qr_vector other_qr) of
                 Inl e \<Rightarrow> Inl e
               | Inr v \<Rightarrow> ApiQR_new init_body
                           [(''vector'', Vector_arg v), (''context'', Context_arg (qr_context self))])"

subsection \<open>Notions used in the statements\<close>

text \<open>
  Nearest-neighbour upsampling as the specification words it: every cell of the grid
  becomes a block of \<open>f\<close> by \<open>f\<close> identical cells.
\<close>

definition upsample_nearest :: "nat \<Rightarrow> 'a array2 \<Rightarrow> 'a array2" where
  "upsample_nearest f g = concat (map (\<lambda>row. replicate f (concat (map (replicate f) row))) g)"

text \<open>
  Two grid positions are adjacent if they differ by exactly 1 in exactly one coordinate
  and not at all in the other one.
\<close>

definition adjacent :: "nat \<times> nat \<Rightarrow> nat \<times> nat \<Rightarrow> bool" where
  "adjacent p q \<longleftrightarrow>
     (\<bar>int (fst p) - int (fst q)\<bar> = 1 \<and> snd p = snd q) \<or>
     (fst p = fst q \<and> \<bar>int (snd p) - int (snd q)\<bar> = 1)"

text \<open>The grid \<open>__hilbertCurve\<close> builds after \<open>k\<close> doublings.\<close>

fun hilbert_grid :: "nat \<Rightarrow> int array2" where
  "hilbert_grid 0 = np_zeros_1_1"
| "hilbert_grid (Suc k) = hilbert_step (hilbert_grid k)"

text \<open>
  The invariant of the construction: a square grid whose cells are in range, pairwise
  different and continuous, which starts in the top left corner and ends in the bottom
  left corner.
\<close>

definition square :: "nat \<Rightarrow> 'a array2 \<Rightarrow> bool" where
  "square m t \<longleftrightarrow> length t = m \<and> (\<forall>r \<in> set t. length r = m)"

definition cells_in_range :: "nat \<Rightarrow> int array2 \<Rightarrow> bool" where
  "cells_in_range m t \<longleftrightarrow> (\<forall>i<m. \<forall>j<m. 0 \<le> t ! i ! j \<and> t ! i ! j < int (m * m))"

definition cells_distinct :: "nat \<Rightarrow> int array2 \<Rightarrow> bool" where
  "cells_distinct m t \<longleftrightarrow>
     (\<forall>i<m. \<forall>j<m. \<forall>i'<m. \<forall>j'<m. t ! i ! j = t ! i' ! j' \<longrightarrow> i = i' \<and> j = j')"

definition cells_continuous :: "nat \<Rightarrow> int array2 \<Rightarrow> bool" where
  "cells_continuous m t \<longleftrightarrow>
     (\<forall>i<m. \<forall>j<m. \<forall>i'<m. \<forall>j'<m. t ! i' ! j' = t ! i ! j + 1 \<longrightarrow> adjacent (i, j) (i', j'))"

definition curve_ok :: "nat \<Rightarrow> int array2 \<Rightarrow> bool" where
  "curve_ok m t \<longleftrightarrow>
     square m t \<and> cells_in_range m t \<and> cells_distinct m t \<and>
     t ! 0 ! 0 = 0 \<and> t ! (m - 1) ! 0 = int (m * m) - 1 \<and> cells_continuous m t"

text \<open>
  The interpolated channel as the floats compute it, and as exact arithmetic would.
\<close>

definition channel_float :: "rat \<Rightarrow> int \<Rightarrow> rat" where
  "channel_float v c =
     float_round (float_round (float_round (1 - v) * 255) + float_round (v * of_int c))"

definition channel_exact :: "rat \<Rightarrow> int \<Rightarrow> rat" where
  "channel_exact v c = (1 - v) * 255 + v * of_int c"

section \<open>The curve generator\<close>

subsection \<open>Cells of the assembled grid\<close>

lemma squareI: "length t = m \<Longrightarrow> (\<And>i. i < m \<Longrightarrow> length (t ! i) = m) \<Longrightarrow> square m t"
  by (auto simp: square_def in_set_conv_nth)

lemma transpose_square:
  assumes "square m t"
  shows "transpose t = map (\<lambda>i. map (\<lambda>j. t ! j ! i) [0..<m]) [0..<m]"
proof -
  have "transpose t = map (\<lambda>i. map (\<lambda>j. t ! j ! i) [0..<length t]) [0..<m]"
    by (rule transpose_rectangle) (use assms in \<open>auto simp: square_def\<close>)
  then show ?thesis using assms by (simp add: square_def)
qed

lemma square_fliplr: "square m t \<Longrightarrow> square m (np_fliplr t)"
  by (auto simp: square_def np_fliplr_def)

lemma square_flipud: "square m t \<Longrightarrow> square m (np_flipud t)"
  by (auto simp: square_def np_flipud_def)

lemma square_transpose: "square m t \<Longrightarrow> square m (transpose t)"
  by (simp add: transpose_square) (simp add: square_def)

lemma block_a_nth:
  assumes "square m t" "i < m" "j < m"
  shows "np_flipud (np_rot90 t) ! i ! j = t ! j ! i"
proof -
  have sq: "square m (np_fliplr t)" using assms(1) by (rule square_fliplr)
  have "np_flipud (np_rot90 t) ! i = transpose (np_fliplr t) ! (m - 1 - i)"
    using assms square_transpose[OF sq]
    by (simp add: np_flipud_def np_rot90_def rev_nth square_def)
  also have "\<dots> ! j = np_fliplr t ! j ! (m - 1 - i)"
    using assms by (simp add: transpose_square[OF sq])
  also have "\<dots> = t ! j ! i"
    using assms by (simp add: np_fliplr_def rev_nth square_def)
  finally show ?thesis .
qed

lemma block_d_nth:
  assumes "square m t" "i < m" "j < m"
  shows "np_flipud (np_rot90_neg t) ! i ! j = t ! (m - 1 - j) ! (m - 1 - i)"
proof -
  have sq: "square m (transpose t)" using assms(1) by (rule square_transpose)
  have "np_flipud (np_rot90_neg t) ! i = rev (transpose t ! (m - 1 - i))"
    using assms sq
    by (simp add: np_flipud_def np_rot90_neg_def np_fliplr_def rev_nth square_def)
  also have "\<dots> ! j = transpose t ! (m - 1 - i) ! (m - 1 - j)"
    using assms sq by (simp add: rev_nth square_def)
  also have "\<dots> = t ! (m - 1 - j) ! (m - 1 - i)"
    using assms by (simp add: transpose_square[OF assms(1)])
  finally show ?thesis .
qed

lemma square_block_a: "square m t \<Longrightarrow> square m (np_flipud (np_rot90 t))"
  unfolding np_rot90_def by (intro square_flipud square_transpose square_fliplr)

lemma square_block_d: "square m t \<Longrightarrow> square m (np_flipud (np_rot90_neg t))"
  unfolding np_rot90_neg_def by (intro square_flipud square_transpose square_fliplr)

lemma np_size_square: "square m t \<Longrightarrow> np_size t = int (m * m)"
  by (simp add: np_size_def square_def length_concat sum_list_triv cong: map_cong)

lemma hilbert_step_eq:
  "hilbert_step t =
     np_hstack [np_flipud (np_rot90 t), np_add_scalar t (np_size t)] @
     np_hstack [np_add_scalar (np_flipud (np_rot90_neg t)) (np_size t * 3),
                np_add_scalar t (np_size t * 2)]"
  by (simp add: hilbert_step_def np_vstack_def Let_def)

lemma hilbert_step_nth:
  assumes sq: "square m t" and i: "i < 2 * m" and j: "j < 2 * m"
  shows "hilbert_step t ! i ! j =
     (if i < m then (if j < m then t ! j ! i else t ! i ! (j - m) + int (m * m))
      else (if j < m then t ! (m - 1 - j) ! (2 * m - 1 - i) + int (m * m) * 3
            else t ! (i - m) ! (j - m) + int (m * m) * 2))"
proof -
  note sqa = square_block_a[OF sq] and sqd = square_block_d[OF sq]
  note sz = np_size_square[OF sq]
  have la: "length (np_hstack [np_flipud (np_rot90 t), np_add_scalar t (np_size t)]) = m"
    using sqa sq by (simp add: square_def np_add_scalar_def)
  show ?thesis
  proof (cases "i < m")
    case True
    have row: "hilbert_step t ! i = np_flipud (np_rot90 t) ! i @ np_add_scalar t (np_size t) ! i"
      using True la sqa sq by (simp add: hilbert_step_eq nth_append square_def np_add_scalar_def)
    have len: "length (np_flipud (np_rot90 t) ! i) = m" using sqa True by (simp add: square_def)
    show ?thesis
    proof (cases "j < m")
      case jT: True
      then show ?thesis using True row len block_a_nth[OF sq True jT] by (simp add: nth_append)
    next
      case jF: False
      then have "j - m < m" using j by simp
      then show ?thesis using True jF row len sq sz
        by (simp add: nth_append np_add_scalar_def square_def)
    qed
  next
    case False
    then have im: "i - m < m" using i by simp
    have row: "hilbert_step t ! i =
        np_add_scalar (np_flipud (np_rot90_neg t)) (np_size t * 3) ! (i - m) @
        np_add_scalar t (np_size t * 2) ! (i - m)"
      using False im la sqd sq by (simp add: hilbert_step_eq nth_append square_def np_add_scalar_def)
    have len: "length (np_add_scalar (np_flipud (np_rot90_neg t)) (np_size t * 3) ! (i - m)) = m"
      using sqd im by (simp add: square_def np_add_scalar_def)
    show ?thesis
    proof (cases "j < m")
      case jT: True
      have "m - 1 - (i - m) = 2 * m - 1 - i" using False i by simp
      then show ?thesis using False row len block_d_nth[OF sq im jT] jT im sqd sz
        by (simp add: nth_append np_add_scalar_def square_def)
    next
      case jF: False
      then have "j - m < m" using j by simp
      then show ?thesis using False jF row len sq sz im
        by (simp add: nth_append np_add_scalar_def square_def)
    qed
  qed
qed

lemma square_hilbert_step:
  assumes sq: "square m t"
  shows "square (2 * m) (hilbert_step t)"
proof -
  note sqa = square_block_a[OF sq] and sqd = square_block_d[OF sq]
  show ?thesis
    using sq sqa sqd
    by (auto simp: hilbert_step_eq square_def np_add_scalar_def set_zip)
qed

text \<open>
  Every cell of the assembled grid is a cell \<open>(a, b)\<close> of \<open>t\<close> plus \<open>q\<close> times the size of
  \<open>t\<close>, where \<open>q\<close> numbers the quadrant along the curve.
\<close>

lemma hilbert_step_cell:
  assumes sq: "square m t" and i: "i < 2 * m" and j: "j < 2 * m"
  shows "\<exists>a b q. a < m \<and> b < m \<and> hilbert_step t ! i ! j = t ! a ! b + q * int (m * m) \<and>
           ((q = 0 \<and> i < m \<and> j < m \<and> a = j \<and> b = i) \<or>
            (q = 1 \<and> i < m \<and> m \<le> j \<and> a = i \<and> b + m = j) \<or>
            (q = 2 \<and> m \<le> i \<and> m \<le> j \<and> a + m = i \<and> b + m = j) \<or>
            (q = 3 \<and> m \<le> i \<and> j < m \<and> a + j + 1 = m \<and> b + i + 1 = 2 * m))"
proof -
  note H = hilbert_step_nth[OF sq i j]
  consider "i < m" "j < m" | "i < m" "m \<le> j" | "m \<le> i" "m \<le> j" | "m \<le> i" "j < m"
    by linarith
  then show ?thesis
  proof cases
    case 1
    then show ?thesis using H
      by - (rule exI[of _ j], rule exI[of _ i], rule exI[of _ 0], auto)
  next
    case 2
    then show ?thesis using H j
      by - (rule exI[of _ i], rule exI[of _ "j - m"], rule exI[of _ 1], auto)
  next
    case 3
    then show ?thesis using H i j
      by - (rule exI[of _ "i - m"], rule exI[of _ "j - m"], rule exI[of _ 2], auto)
  next
    case 4
    then show ?thesis using H i j
      by - (rule exI[of _ "m - 1 - j"], rule exI[of _ "2 * m - 1 - i"], rule exI[of _ 3], auto)
  qed
qed

subsection \<open>The invariant\<close>

lemma cells_in_rangeD:
  "cells_in_range m t \<Longrightarrow> a < m \<Longrightarrow> b < m \<Longrightarrow> 0 \<le> t ! a ! b \<and> t ! a ! b < int (m * m)"
  unfolding cells_in_range_def by blast

lemma cells_distinctD:
  "cells_distinct m t \<Longrightarrow> a < m \<Longrightarrow> b < m \<Longrightarrow> a' < m \<Longrightarrow> b' < m \<Longrightarrow>
     t ! a ! b = t ! a' ! b' \<Longrightarrow> a = a' \<and> b = b'"
  unfolding cells_distinct_def by blast

lemma cells_continuousD:
  "cells_continuous m t \<Longrightarrow> a < m \<Longrightarrow> b < m \<Longrightarrow> a' < m \<Longrightarrow> b' < m \<Longrightarrow>
     t ! a' ! b' = t ! a ! b + 1 \<Longrightarrow> adjacent (a, b) (a', b')"
  unfolding cells_continuous_def by blast

lemma curve_ok_step:
  assumes ok: "curve_ok m t" and m: "0 < m"
  shows "curve_ok (2 * m) (hilbert_step t)"
proof -
  define M where "M = int (m * m)"
  define H where "H = hilbert_step t"
  have sq: "square m t" using ok by (simp add: curve_ok_def)
  have R: "\<And>a b. a < m \<Longrightarrow> b < m \<Longrightarrow> 0 \<le> t ! a ! b \<and> t ! a ! b < M"
    unfolding M_def using ok by (intro cells_in_rangeD) (simp_all add: curve_ok_def)
  have I: "\<And>a b a' b'. a < m \<Longrightarrow> b < m \<Longrightarrow> a' < m \<Longrightarrow> b' < m \<Longrightarrow>
              t ! a ! b = t ! a' ! b' \<Longrightarrow> a = a' \<and> b = b'"
    using ok by (intro cells_distinctD[of m t]) (simp_all add: curve_ok_def)
  have t0: "t ! 0 ! 0 = 0" and tl: "t ! (m - 1) ! 0 = M - 1"
    using ok by (simp_all add: curve_ok_def M_def)
  have Z: "\<And>a b. a < m \<Longrightarrow> b < m \<Longrightarrow> t ! a ! b = 0 \<Longrightarrow> a = 0 \<and> b = 0"
    using I[of _ _ 0 0] t0 m by simp
  have L: "\<And>a b. a < m \<Longrightarrow> b < m \<Longrightarrow> t ! a ! b = M - 1 \<Longrightarrow> a + 1 = m \<and> b = 0"
    using I[of _ _ "m - 1" 0] tl m by fastforce
  have A: "\<And>a b a' b'. a < m \<Longrightarrow> b < m \<Longrightarrow> a' < m \<Longrightarrow> b' < m \<Longrightarrow>
              t ! a' ! b' = t ! a ! b + 1 \<Longrightarrow> adjacent (a, b) (a', b')"
    using ok by (intro cells_continuousD[of m t]) (simp_all add: curve_ok_def)
  have C: "\<And>i j. i < 2 * m \<Longrightarrow> j < 2 * m \<Longrightarrow>
     \<exists>a b q. a < m \<and> b < m \<and> H ! i ! j = t ! a ! b + q * M \<and>
           ((q = 0 \<and> i < m \<and> j < m \<and> a = j \<and> b = i) \<or>
            (q = 1 \<and> i < m \<and> m \<le> j \<and> a = i \<and> b + m = j) \<or>
            (q = 2 \<and> m \<le> i \<and> m \<le> j \<and> a + m = i \<and> b + m = j) \<or>
            (q = 3 \<and> m \<le> i \<and> j < m \<and> a + j + 1 = m \<and> b + i + 1 = 2 * m))"
    unfolding H_def M_def by (rule hilbert_step_cell[OF sq])
  have M4: "int (2 * m * (2 * m)) = 4 * M" by (simp add: M_def)
  have range: "0 \<le> H ! i ! j \<and> H ! i ! j < 4 * M" if "i < 2 * m" "j < 2 * m" for i j
  proof -
    from C[OF that] obtain a b q where *: "a < m" "b < m" "H ! i ! j = t ! a ! b + q * M"
      "q = 0 \<or> q = 1 \<or> q = 2 \<or> q = 3" by blast
    from R[OF *(1,2)] *(3,4) show ?thesis by auto
  qed
  have inj: "i = i' \<and> j = j'"
    if "i < 2 * m" "j < 2 * m" "i' < 2 * m" "j' < 2 * m" "H ! i ! j = H ! i' ! j'" for i j i' j'
  proof -
    from C[OF that(1,2)] obtain a b q where 1: "a < m" "b < m" "H ! i ! j = t ! a ! b + q * M"
      "(q = 0 \<and> i < m \<and> j < m \<and> a = j \<and> b = i) \<or>
       (q = 1 \<and> i < m \<and> m \<le> j \<and> a = i \<and> b + m = j) \<or>
       (q = 2 \<and> m \<le> i \<and> m \<le> j \<and> a + m = i \<and> b + m = j) \<or>
       (q = 3 \<and> m \<le> i \<and> j < m \<and> a + j + 1 = m \<and> b + i + 1 = 2 * m)" by blast
    from C[OF that(3,4)] obtain a' b' q' where 2: "a' < m" "b' < m" "H ! i' ! j' = t ! a' ! b' + q' * M"
      "(q' = 0 \<and> i' < m \<and> j' < m \<and> a' = j' \<and> b' = i') \<or>
       (q' = 1 \<and> i' < m \<and> m \<le> j' \<and> a' = i' \<and> b' + m = j') \<or>
       (q' = 2 \<and> m \<le> i' \<and> m \<le> j' \<and> a' + m = i' \<and> b' + m = j') \<or>
       (q' = 3 \<and> m \<le> i' \<and> j' < m \<and> a' + j' + 1 = m \<and> b' + i' + 1 = 2 * m)" by blast
    have q: "q = 0 \<or> q = 1 \<or> q = 2 \<or> q = 3" using 1(4) by blast
    have q': "q' = 0 \<or> q' = 1 \<or> q' = 2 \<or> q' = 3" using 2(4) by blast
    have qq: "q = q' \<and> t ! a ! b = t ! a' ! b'"
      using R[OF 1(1,2)] R[OF 2(1,2)] 1(3) 2(3) q q' that(5) by auto
    with I[OF 1(1,2) 2(1,2)] have "a = a'" "b = b'" "q = q'" by auto
    with 1(4) 2(4) show ?thesis by auto
  qed
  have adj: "adjacent (i, j) (i', j')"
    if "i < 2 * m" "j < 2 * m" "i' < 2 * m" "j' < 2 * m" "H ! i' ! j' = H ! i ! j + 1" for i j i' j'
  proof -
    from C[OF that(1,2)] obtain a b q where 1: "a < m" "b < m" "H ! i ! j = t ! a ! b + q * M"
      "(q = 0 \<and> i < m \<and> j < m \<and> a = j \<and> b = i) \<or>
       (q = 1 \<and> i < m \<and> m \<le> j \<and> a = i \<and> b + m = j) \<or>
       (q = 2 \<and> m \<le> i \<and> m \<le> j \<and> a + m = i \<and> b + m = j) \<or>
       (q = 3 \<and> m \<le> i \<and> j < m \<and> a + j + 1 = m \<and> b + i + 1 = 2 * m)" by blast
    from C[OF that(3,4)] obtain a' b' q' where 2: "a' < m" "b' < m" "H ! i' ! j' = t ! a' ! b' + q' * M"
      "(q' = 0 \<and> i' < m \<and> j' < m \<and> a' = j' \<and> b' = i') \<or>
       (q' = 1 \<and> i' < m \<and> m \<le> j' \<and> a' = i' \<and> b' + m = j') \<or>
       (q' = 2 \<and> m \<le> i' \<and> m \<le> j' \<and> a' + m = i' \<and> b' + m = j') \<or>
       (q' = 3 \<and> m \<le> i' \<and> j' < m \<and> a' + j' + 1 = m \<and> b' + i' + 1 = 2 * m)" by blast
    have q: "q = 0 \<or> q = 1 \<or> q = 2 \<or> q = 3" using 1(4) by blast
    have q': "q' = 0 \<or> q' = 1 \<or> q' = 2 \<or> q' = 3" using 2(4) by blast
    have split: "(q' = q \<and> t ! a' ! b' = t ! a ! b + 1) \<or>
                 (q' = q + 1 \<and> t ! a ! b = M - 1 \<and> t ! a' ! b' = 0)"
      using R[OF 1(1,2)] R[OF 2(1,2)] 1(3) 2(3) q q' that(5) by auto
    then show ?thesis
    proof
      assume s: "q' = q \<and> t ! a' ! b' = t ! a ! b + 1"
      with A[OF 1(1,2) 2(1,2)] have "adjacent (a, b) (a', b')" by simp
      with s 1(4) 2(4) show ?thesis by (auto simp: adjacent_def)
    next
      assume s: "q' = q + 1 \<and> t ! a ! b = M - 1 \<and> t ! a' ! b' = 0"
      with L[OF 1(1,2)] Z[OF 2(1,2)] have "a + 1 = m" "b = 0" "a' = 0" "b' = 0" by auto
      with s 1(4) 2(4) show ?thesis by (auto simp: adjacent_def)
    qed
  qed
  have first: "H ! 0 ! 0 = 0"
    using hilbert_step_nth[OF sq, of 0 0] m t0 by (simp add: H_def)
  have nlt: "\<not> 2 * m - 1 < m" using m by simp
  have last: "H ! (2 * m - 1) ! 0 = 4 * M - 1"
    using hilbert_step_nth[OF sq, of "2 * m - 1" 0] m tl nlt by (simp add: H_def M_def)
  have "cells_in_range (2 * m) H"
    unfolding cells_in_range_def M4 using range by blast
  moreover have "cells_distinct (2 * m) H"
    unfolding cells_distinct_def using inj by blast
  moreover have "cells_continuous (2 * m) H"
    unfolding cells_continuous_def using adj by blast
  ultimately show ?thesis
    unfolding curve_ok_def H_def[symmetric] M4
    using square_hilbert_step[OF sq] first last by (simp add: H_def)
qed

lemma curve_ok_base: "curve_ok 1 np_zeros_1_1"
  by (simp add: curve_ok_def square_def cells_in_range_def cells_distinct_def
      cells_continuous_def np_zeros_1_1_def)

lemma curve_ok_grid: "curve_ok (2 ^ k) (hilbert_grid k)"
proof (induction k)
  case 0
  show ?case using curve_ok_base by simp
next
  case (Suc k)
  from curve_ok_step[OF Suc] show ?case by simp
qed

subsection \<open>What the generator returns\<close>

lemma hilbertCurve_between:
  "2 ^ k \<le> n \<Longrightarrow> n < 2 ^ Suc k \<Longrightarrow> hilbertCurve n = Some (hilbert_grid k)"
proof (induction k arbitrary: n)
  case 0
  then have "n = 1" by simp
  then show ?case by (simp add: hilbertCurve.simps)
next
  case (Suc k)
  have ne: "n \<noteq> 1"
  proof
    assume "n = 1"
    moreover have "(1::int) \<le> 2 ^ k" by simp
    ultimately show False using Suc.prems(1) by (simp only: power_Suc)
  qed
  have "2 ^ k \<le> n div 2" "n div 2 < 2 ^ Suc k"
    using Suc.prems by simp_all
  then have "hilbertCurve (n div 2) = Some (hilbert_grid k)" by (rule Suc.IH)
  then show ?case using ne by (subst hilbertCurve.simps) simp
qed

lemma hilbertCurve_pow2: "hilbertCurve (2 ^ k) = Some (hilbert_grid k)"
  by (rule hilbertCurve_between) simp_all

lemma hilbertCurve_Some_pos:
  assumes ret: "hilbertCurve n = Some g"
  shows "1 \<le> n"
proof (rule hilbertCurve.raw_induct[where P = "\<lambda>n g. 1 \<le> n", OF _ ret])
  fix f :: "int \<Rightarrow> int array2 option" and n g
  assume IH: "\<And>x y. f x = Some y \<Longrightarrow> 1 \<le> x"
    and eq: "(if n = 1 then Some np_zeros_1_1
              else Option.bind (f (n div 2)) (\<lambda>t. Some (hilbert_step t))) = Some g"
  show "1 \<le> n"
  proof (cases "n = 1")
    case True
    then show ?thesis by simp
  next
    case False
    with eq obtain t where "f (n div 2) = Some t"
      by (auto simp: bind_eq_Some_conv)
    then have "1 \<le> n div 2" by (rule IH)
    then show ?thesis by simp
  qed
qed

subsection \<open>Flat view of a square grid\<close>

lemma concat_nth_rect:
  "\<forall>r \<in> set t. length r = c \<Longrightarrow> k < length t * c \<Longrightarrow> concat t ! k = t ! (k div c) ! (k mod c)"
proof (induction t arbitrary: k)
  case Nil
  then show ?case by simp
next
  case (Cons r t)
  have c: "0 < c" using Cons.prems(2) by (cases c) simp_all
  show ?case
  proof (cases "k < c")
    case True
    then show ?thesis using Cons.prems by (simp add: nth_append)
  next
    case False
    then have kc: "c \<le> k" by simp
    have "k - c < length t * c" using Cons.prems(2) kc by simp
    then have "concat t ! (k - c) = t ! ((k - c) div c) ! ((k - c) mod c)"
      using Cons.prems(1) by (intro Cons.IH) simp_all
    moreover have "k div c = Suc ((k - c) div c)" using kc c by (simp add: le_div_geq)
    moreover have "k mod c = (k - c) mod c" using kc by (simp add: le_mod_geq)
    ultimately show ?thesis using False Cons.prems(1) by (simp add: nth_append)
  qed
qed

lemma length_concat_rect: "\<forall>r \<in> set t. length r = c \<Longrightarrow> length (concat t) = length t * c"
  by (induction t) simp_all

lemma curve_ok_flat:
  assumes ok: "curve_ok m t"
  shows "length (concat t) = m * m"
    and "k < m * m \<Longrightarrow> concat t ! k = t ! (k div m) ! (k mod m)"
    and "k < m * m \<Longrightarrow> 0 \<le> concat t ! k \<and> concat t ! k < int (m * m)"
proof -
  have sq: "length t = m" "\<forall>r \<in> set t. length r = m"
    using ok by (simp_all add: curve_ok_def square_def)
  show len: "length (concat t) = m * m" using length_concat_rect[OF sq(2)] sq(1) by simp
  show nth: "concat t ! k = t ! (k div m) ! (k mod m)" if "k < m * m"
    using concat_nth_rect[OF sq(2), of k] that sq(1) by simp
  show "0 \<le> concat t ! k \<and> concat t ! k < int (m * m)" if "k < m * m"
  proof -
    have m: "0 < m" using that by (cases m) simp_all
    have "k div m < m" "k mod m < m" using that m by (simp_all add: less_mult_imp_div_less)
    moreover have "cells_in_range m t" using ok by (simp add: curve_ok_def)
    ultimately show ?thesis using nth[OF that] cells_in_rangeD by metis
  qed
qed

lemma curve_ok_distinct:
  assumes ok: "curve_ok m t"
  shows "distinct (concat t)"
proof -
  note flat = curve_ok_flat[OF ok]
  have d: "cells_distinct m t" using ok by (simp add: curve_ok_def)
  have "i = j" if "i < m * m" "j < m * m" "concat t ! i = concat t ! j" for i j
  proof -
    have m: "0 < m" using that(1) by (cases m) simp_all
    have b: "i div m < m" "i mod m < m" "j div m < m" "j mod m < m"
      using that m by (simp_all add: less_mult_imp_div_less)
    have "t ! (i div m) ! (i mod m) = t ! (j div m) ! (j mod m)"
      using that flat(2) by simp
    from cells_distinctD[OF d b this] have "i div m = j div m" "i mod m = j mod m" by simp_all
    then show ?thesis by (metis div_mult_mod_eq)
  qed
  then show ?thesis unfolding distinct_conv_nth flat(1) by blast
qed

lemma curve_ok_set:
  assumes ok: "curve_ok m t"
  shows "set (concat t) = int ` {0..<m * m}"
proof -
  note flat = curve_ok_flat[OF ok]
  have sub: "set (concat t) \<subseteq> int ` {0..<m * m}"
  proof
    fix v assume "v \<in> set (concat t)"
    then obtain k where k: "k < m * m" "concat t ! k = v"
      unfolding in_set_conv_nth flat(1) by blast
    with flat(3)[OF k(1)] have "0 \<le> v" "v < int (m * m)" by simp_all
    then have "nat v \<in> {0..<m * m}" "v = int (nat v)" by (simp_all add: nat_less_iff)
    then show "v \<in> int ` {0..<m * m}" by blast
  qed
  have "card (set (concat t)) = m * m"
    using distinct_card[OF curve_ok_distinct[OF ok]] flat(1) by simp
  moreover have "card (int ` {0..<m * m}) = m * m"
    by (simp add: card_image)
  ultimately show ?thesis using sub by (intro card_subset_eq) simp_all
qed

lemma curve_ok_mset:
  assumes ok: "curve_ok m t"
  shows "mset (concat t) = mset (map int [0..<m * m])"
proof -
  have "distinct (map int [0..<m * m])" by (simp add: distinct_map)
  moreover have "set (concat t) = set (map int [0..<m * m])"
    using curve_ok_set[OF ok] by simp
  ultimately show ?thesis
    using set_eq_iff_mset_eq_distinct[of "concat t" "map int [0..<m * m]"]
      curve_ok_distinct[OF ok] by blast
qed

lemma curve_ok_position:
  assumes ok: "curve_ok m t" and v: "0 \<le> v" "v < int (m * m)"
  shows "\<exists>i<m. \<exists>j<m. t ! i ! j = v"
proof -
  note flat = curve_ok_flat[OF ok]
  have "v \<in> int ` {0..<m * m}"
    using v by (intro image_eqI[of _ _ "nat v"]) (simp_all add: nat_less_iff)
  then have "v \<in> set (concat t)" using curve_ok_set[OF ok] by simp
  then obtain k where k: "k < m * m" "concat t ! k = v"
    unfolding in_set_conv_nth flat(1) by blast
  have m: "0 < m" using k(1) by (cases m) simp_all
  have "k div m < m" "k mod m < m" using k(1) m by (simp_all add: less_mult_imp_div_less)
  moreover have "t ! (k div m) ! (k mod m) = v" using flat(2)[OF k(1)] k(2) by simp
  ultimately show ?thesis by blast
qed

subsection \<open>The claims on the curve generator\<close>

text \<open>
  Claim C1. For every power of two \<open>n = 2^k\<close> (so \<open>n \<ge> 1\<close>), \<open>__hilbertCurve(n)\<close> returns a
  grid of \<open>n\<close> rows of \<open>n\<close> cells in which every integer from \<open>0\<close> to \<open>n * n - 1\<close> occurs
  exactly once: the cells, read row by row, are a permutation of \<open>0, ..., n * n - 1\<close>.
\<close>

theorem hilbertCurve_permutation:
  assumes "n = 2 ^ k"
  shows "\<exists>g. hilbertCurve (int n) = Some g \<and> length g = n \<and> (\<forall>row \<in> set g. length row = n) \<and>
             mset (concat g) = mset (map int [0..<n * n])"
proof -
  have ok: "curve_ok n (hilbert_grid k)" using curve_ok_grid[of k] assms by simp
  have "hilbertCurve (int n) = Some (hilbert_grid k)"
    using hilbertCurve_pow2[of k] assms by simp
  moreover have "length (hilbert_grid k) = n" "\<forall>row \<in> set (hilbert_grid k). length row = n"
    using ok by (simp_all add: curve_ok_def square_def)
  ultimately show ?thesis using curve_ok_mset[OF ok] by blast
qed

theorem hilbertCurve_permutation_witness:
  "\<exists>g. hilbertCurve 4 = Some g \<and> length g = 4 \<and> (\<forall>row \<in> set g. length row = 4) \<and>
       mset (concat g) = mset (map int [0..<16])"
  using hilbertCurve_permutation[of 4 2] by simp

text \<open>
  Claim C2. For every power of two \<open>n = 2^k\<close> and every value \<open>v\<close> with
  \<open>0 \<le> v < n * n - 1\<close>, the values \<open>v\<close> and \<open>v + 1\<close> both have a position in the grid that
  \<open>__hilbertCurve(n)\<close> returns, and wherever they stand, their positions are adjacent:
  they differ by exactly 1 in exactly one coordinate and by 0 in the other.
\<close>

theorem hilbertCurve_continuous:
  assumes "n = 2 ^ k" and "0 \<le> v" and "v < int (n * n) - 1"
  shows "\<exists>g. hilbertCurve (int n) = Some g \<and>
           (\<exists>i<n. \<exists>j<n. g ! i ! j = v) \<and> (\<exists>i<n. \<exists>j<n. g ! i ! j = v + 1) \<and>
           (\<forall>i<n. \<forall>j<n. \<forall>i'<n. \<forall>j'<n. g ! i ! j = v \<and> g ! i' ! j' = v + 1 \<longrightarrow>
               adjacent (i, j) (i', j'))"
proof -
  have ok: "curve_ok n (hilbert_grid k)" using curve_ok_grid[of k] assms(1) by simp
  have ret: "hilbertCurve (int n) = Some (hilbert_grid k)"
    using hilbertCurve_pow2[of k] assms(1) by simp
  have p1: "\<exists>i<n. \<exists>j<n. hilbert_grid k ! i ! j = v"
    using assms(2,3) by (intro curve_ok_position[OF ok]) simp_all
  have p2: "\<exists>i<n. \<exists>j<n. hilbert_grid k ! i ! j = v + 1"
    using assms(2,3) by (intro curve_ok_position[OF ok]) simp_all
  have c: "cells_continuous n (hilbert_grid k)" using ok by (simp add: curve_ok_def)
  have adj: "\<forall>i<n. \<forall>j<n. \<forall>i'<n. \<forall>j'<n.
      hilbert_grid k ! i ! j = v \<and> hilbert_grid k ! i' ! j' = v + 1 \<longrightarrow> adjacent (i, j) (i', j')"
    using cells_continuousD[OF c] by simp
  show ?thesis using ret p1 p2 adj by blast
qed

theorem hilbertCurve_continuous_witness:
  "\<exists>g. hilbertCurve 4 = Some g \<and>
       (\<exists>i<4. \<exists>j<4. g ! i ! j = 7) \<and> (\<exists>i<4. \<exists>j<4. g ! i ! j = 8) \<and>
       (\<forall>i<4. \<forall>j<4. \<forall>i'<4. \<forall>j'<4. g ! i ! j = 7 \<and> g ! i' ! j' = 8 \<longrightarrow>
           adjacent (i, j) (i', j'))"
  using hilbertCurve_continuous[of 4 2 7] by simp

text \<open>
  Claim C4, as the specification states it: for every \<open>n\<close> that is not a power of two, or is
  below 1, the generator fails with InvalidSizeError and returns no grid. The source has
  no size check and no such exception: \<open>__hilbertCurve(3)\<close> returns the grid of size 2.
\<close>

theorem hilbertCurve_3_returns: "hilbertCurve 3 = Some [[0, 1], [3, 2]]"
  by (simp add: hilbertCurve.simps hilbert_step_def np_zeros_1_1_def np_vstack_def
      np_add_scalar_def np_size_def np_flipud_def np_rot90_def np_rot90_neg_def np_fliplr_def)

text \<open>
  Claim C4, amended. For every \<open>n < 1\<close> the generator returns no grid: its recursion on
  \<open>n // 2\<close> never reaches \<open>n == 1\<close> (Python ends it with the error for the recursion
  depth, not with InvalidSizeError). For every \<open>n \<ge> 1\<close>, power of two or not, it returns
  a grid, namely the one of the largest power of two that is not above \<open>n\<close>.
\<close>

theorem hilbertCurve_any_size:
  "(n < 1 \<longrightarrow> hilbertCurve n = None) \<and>
   (2 ^ k \<le> n \<and> n < 2 ^ Suc k \<longrightarrow>
      hilbertCurve n = hilbertCurve (2 ^ k) \<and> hilbertCurve n \<noteq> None)"
proof (intro conjI impI)
  assume "n < 1"
  then show "hilbertCurve n = None"
    using hilbertCurve_Some_pos[of n] by (cases "hilbertCurve n") auto
next
  assume "2 ^ k \<le> n \<and> n < 2 ^ Suc k"
  then have "hilbertCurve n = Some (hilbert_grid k)" by (intro hilbertCurve_between) simp_all
  then show "hilbertCurve n = hilbertCurve (2 ^ k)" "hilbertCurve n \<noteq> None"
    by (simp_all add: hilbertCurve_pow2)
qed

theorem hilbertCurve_any_size_witness:
  "hilbertCurve 0 = None \<and> hilbertCurve 6 = hilbertCurve 4 \<and> hilbertCurve 6 \<noteq> None"
proof -
  have "(0::int) < 1" by simp
  moreover have "(2::int) ^ 2 \<le> 6 \<and> (6::int) < 2 ^ Suc 2" by simp
  moreover have "(2::int) ^ 2 = 4" by simp
  ultimately show ?thesis
    using hilbertCurve_any_size[of 0 0] hilbertCurve_any_size[of 6 2] by metis
qed

end
